theory Spec2Isabelle
  imports Main "HOL-Library.Sublist" "HOL-Library.Multiset" "HOL-Library.Product_Lexorder"
begin

section \<open>Python strings\<close>

text \<open>
  A Python \<open>str\<close> is modelled as a \<open>string\<close>: a list of characters with code points
  below 256. \<open>isspace\<close> lists the code points below 256 for which \<open>str.isspace\<close> holds,
  and \<open>lower_char\<close> the ones that \<open>str.lower\<close> changes (A-Z and the upper-case letters
  of Latin-1).
\<close>

definition isspace :: "char \<Rightarrow> bool" where
  "isspace c = (of_char c \<in> {9, 10, 11, 12, 13, 28, 29, 30, 31, 32, 133, 160 :: nat})"

text \<open>\<open>s.strip()\<close>: whitespace is removed at both ends.\<close>

definition strip :: "string \<Rightarrow> string" where
  "strip s = rev (dropWhile isspace (rev (dropWhile isspace s)))"

definition lower_char :: "char \<Rightarrow> char" where
  "lower_char c =
     (let n = (of_char c :: nat)
      in if (65 \<le> n \<and> n \<le> 90) \<or> (192 \<le> n \<and> n \<le> 222 \<and> n \<noteq> 215)
         then char_of (n + 32) else c)"

text \<open>\<open>s.lower()\<close>.\<close>

definition lower :: "string \<Rightarrow> string" where
  "lower s = map lower_char s"

text \<open>
  \<open>s.split(sep)\<close> scans from the left: where \<open>sep\<close> starts, the current segment ends
  and the scan goes on behind the separator; any other character joins the current
  segment. Python raises \<open>ValueError\<close> for an empty separator; the only call passes the
  literal of two newlines, and for an empty \<open>sep\<close> this function returns \<open>[s]\<close>.
\<close>

fun attach :: "char \<Rightarrow> string list \<Rightarrow> string list" where
  "attach c [] = [[c]]"
| "attach c (seg # segs) = (c # seg) # segs"

function split_str :: "string \<Rightarrow> string \<Rightarrow> string list" where
  "split_str sep [] = [[]]"
| "split_str sep (c # cs) =
     (if sep \<noteq> [] \<and> prefix sep (c # cs)
      then [] # split_str sep (drop (length sep) (c # cs))
      else attach c (split_str sep cs))"
  by pat_completeness auto
termination
  by (relation "measure (\<lambda>(sep, s). length s)") auto

text \<open>\<open>sep.join(segs)\<close>, the inverse direction, used to state what \<open>split_str\<close> returns.\<close>

fun join_str :: "string \<Rightarrow> string list \<Rightarrow> string" where
  "join_str sep [] = []"
| "join_str sep [seg] = seg"
| "join_str sep (seg # segs) = seg @ sep @ join_str sep segs"

section \<open>Pipeline A: extraction and storage of company records\<close>

subsection \<open>Data\<close>

text \<open>
  A calendar date is its year, month and day, compared lexicographically: the order of
  \<open>datetime.date\<close> and of the \<open>DATE\<close> column.
\<close>

type_synonym date = "nat \<times> nat \<times> nat"

text \<open>\<open>class CompanyInfo(BaseModel)\<close>\<close>

record CompanyInfo =
  company_name :: string
  founding_date :: string
  founders :: "string list"

text \<open>
  A row of \<open>company_details\<close>; \<open>get_stored_companies\<close> returns one dictionary with these
  four keys (\<open>id\<close>, \<open>company_name\<close>, \<open>founded_in\<close>, \<open>founded_by\<close>) per row.
\<close>

record stored_row =
  row_id :: nat
  row_company_name :: string
  founded_in :: date
  founded_by :: "string list"

text \<open>
  The relation \<open>company_details\<close>: its rows in the order of insertion, and the next value
  of the sequence behind \<open>id SERIAL\<close>. Sequence values lost to failed statements are not
  modelled.
\<close>

record relation =
  next_id :: nat
  tuples :: "stored_row list"

text \<open>The exceptions of the two programs, by what raises them.\<close>

datatype error = ValueError | DatabaseError | ModelError | EOFError

text \<open>The calls the program makes to the database and to the language model.\<close>

datatype event =
    Connect
  | Execute_create
  | Execute_insert string date "string list"
  | Fetch
  | Close
  | Ainvoke string

text \<open>
  The world outside the program: the database (\<open>None\<close> while the relation does not exist)
  and the calls made so far, oldest first. Which calls fail is given from outside, as a
  predicate \<open>fails\<close> on the position of the call in that sequence, so that every pattern
  of connectivity failures is covered. A call that fails changes nothing but the log.
\<close>

record world =
  company_details :: "relation option"
  calls :: "event list"

definition record_call :: "event \<Rightarrow> world \<Rightarrow> world" where
  "record_call e w = w\<lparr>calls := calls w @ [e]\<rparr>"

subsection \<open>The database statements\<close>

text \<open>\<open>asyncpg.connect(**DATABASE_CONFIG)\<close>\<close>

definition connect :: "(nat \<Rightarrow> bool) \<Rightarrow> world \<Rightarrow> (error + unit) \<times> world" where
  "connect fails w =
     (if fails (length (calls w)) then (Inl DatabaseError, record_call Connect w)
      else (Inr (), record_call Connect w))"

text \<open>
  \<open>CREATE TABLE IF NOT EXISTS company_details (...)\<close>: a relation that exists is left as
  it is; otherwise an empty one is created, its sequence starting at 1.
\<close>

definition create_table_if_not_exists :: "relation option \<Rightarrow> relation option" where
  "create_table_if_not_exists t =
     (case t of None \<Rightarrow> Some \<lparr>next_id = 1, tuples = []\<rparr> | Some r \<Rightarrow> Some r)"

definition execute_create :: "(nat \<Rightarrow> bool) \<Rightarrow> world \<Rightarrow> (error + unit) \<times> world" where
  "execute_create fails w =
     (if fails (length (calls w)) then (Inl DatabaseError, record_call Execute_create w)
      else (Inr (), record_call Execute_create
              (w\<lparr>company_details := create_table_if_not_exists (company_details w)\<rparr>)))"

text \<open>
  \<open>INSERT INTO company_details (company_name, founded_in, founded_by) VALUES ($1, $2, $3)\<close>:
  the row is appended under the next \<open>id\<close>; a name longer than the 255 characters of
  \<open>VARCHAR(255)\<close> is refused.
\<close>

definition insert_row :: "string \<Rightarrow> date \<Rightarrow> string list \<Rightarrow> relation \<Rightarrow> error + relation" where
  "insert_row name d fs r =
     (if 255 < length name then Inl DatabaseError
      else Inr (r\<lparr>tuples := tuples r @
                  [\<lparr>row_id = next_id r, row_company_name = name, founded_in = d, founded_by = fs\<rparr>],
                next_id := next_id r + 1\<rparr>))"

definition execute_insert ::
  "(nat \<Rightarrow> bool) \<Rightarrow> string \<Rightarrow> date \<Rightarrow> string list \<Rightarrow> world \<Rightarrow> (error + unit) \<times> world" where
  "execute_insert fails name d fs w =
     (let w' = record_call (Execute_insert name d fs) w
      in if fails (length (calls w)) then (Inl DatabaseError, w')
         else (case company_details w of
                 None \<Rightarrow> (Inl DatabaseError, w')
               | Some r \<Rightarrow>
                   (case insert_row name d fs r of
                      Inl e \<Rightarrow> (Inl e, w')
                    | Inr r' \<Rightarrow> (Inr (), w'\<lparr>company_details := Some r'\<rparr>))))"

text \<open>
  \<open>SELECT id, company_name, founded_in, founded_by FROM company_details ORDER BY founded_in\<close>:
  the rows by ascending \<open>founded_in\<close>. SQL leaves the order of rows with equal dates
  open; the model keeps them in the order of insertion.
\<close>

definition fetch_ordered :: "(nat \<Rightarrow> bool) \<Rightarrow> world \<Rightarrow> (error + stored_row list) \<times> world" where
  "fetch_ordered fails w =
     (if fails (length (calls w)) then (Inl DatabaseError, record_call Fetch w)
      else (case company_details w of
              None \<Rightarrow> (Inl DatabaseError, record_call Fetch w)
            | Some r \<Rightarrow> (Inr (sort_key founded_in (tuples r)), record_call Fetch w)))"

text \<open>\<open>conn.close()\<close>\<close>

definition close :: "(nat \<Rightarrow> bool) \<Rightarrow> world \<Rightarrow> (error + unit) \<times> world" where
  "close fails w =
     (if fails (length (calls w)) then (Inl DatabaseError, record_call Close w)
      else (Inr (), record_call Close w))"

subsection \<open>insert_companies_to_db\<close>

text \<open>
  The \<open>for company in companies\<close> loop. \<open>strptime\<close> stands for
  \<open>datetime.strptime(_, "%Y-%m-%d").date()\<close>: \<open>None\<close> where the library raises
  \<open>ValueError\<close>. An exception leaves the loop at once.
\<close>

fun insert_loop ::
  "(string \<Rightarrow> date option) \<Rightarrow> (nat \<Rightarrow> bool) \<Rightarrow> CompanyInfo list \<Rightarrow> world \<Rightarrow> (error + unit) \<times> world" where
  "insert_loop strptime fails [] w = (Inr (), w)"
| "insert_loop strptime fails (company # companies) w =
     (case strptime (founding_date company) of
        None \<Rightarrow> (Inl ValueError, w)
      | Some date_obj \<Rightarrow>
          (case execute_insert fails (company_name company) date_obj (founders company) w of
             (Inl e, w') \<Rightarrow> (Inl e, w')
           | (Inr u, w') \<Rightarrow> insert_loop strptime fails companies w'))"

text \<open>The body of the \<open>try\<close> block, up to \<open>conn.close()\<close>.\<close>

definition insert_try ::
  "(string \<Rightarrow> date option) \<Rightarrow> (nat \<Rightarrow> bool) \<Rightarrow> CompanyInfo list \<Rightarrow> world \<Rightarrow> (error + unit) \<times> world" where
  "insert_try strptime fails companies w =
     (case connect fails w of
        (Inl e, w1) \<Rightarrow> (Inl e, w1)
      | (Inr u, w1) \<Rightarrow>
          (case execute_create fails w1 of
             (Inl e, w2) \<Rightarrow> (Inl e, w2)
           | (Inr u, w2) \<Rightarrow>
               (case insert_loop strptime fails companies w2 of
                  (Inl e, w3) \<Rightarrow> (Inl e, w3)
                | (Inr u, w3) \<Rightarrow> close fails w3)))"

text \<open>\<open>return True\<close> at the end of the \<open>try\<close> block, \<open>return False\<close> in \<open>except Exception\<close>.\<close>

definition insert_companies_to_db ::
  "(string \<Rightarrow> date option) \<Rightarrow> (nat \<Rightarrow> bool) \<Rightarrow> CompanyInfo list \<Rightarrow> world \<Rightarrow> bool \<times> world" where
  "insert_companies_to_db strptime fails companies w =
     (case insert_try strptime fails companies w of
        (Inl e, w') \<Rightarrow> (False, w')
      | (Inr u, w') \<Rightarrow> (True, w'))"

subsection \<open>get_stored_companies\<close>

text \<open>The body of the \<open>try\<close> block: connect, fetch, close, then one dictionary per row.\<close>

definition fetch_try :: "(nat \<Rightarrow> bool) \<Rightarrow> world \<Rightarrow> (error + stored_row list) \<times> world" where
  "fetch_try fails w =
     (case connect fails w of
        (Inl e, w1) \<Rightarrow> (Inl e, w1)
      | (Inr u, w1) \<Rightarrow>
          (case fetch_ordered fails w1 of
             (Inl e, w2) \<Rightarrow> (Inl e, w2)
           | (Inr rows, w2) \<Rightarrow>
               (case close fails w2 of
                  (Inl e, w3) \<Rightarrow> (Inl e, w3)
                | (Inr u, w3) \<Rightarrow>
                    (Inr (map (\<lambda>row. \<lparr>row_id = row_id row,
                                       row_company_name = row_company_name row,
                                       founded_in = founded_in row,
                                       founded_by = founded_by row\<rparr>) rows), w3))))"

definition get_stored_companies :: "(nat \<Rightarrow> bool) \<Rightarrow> world \<Rightarrow> stored_row list \<times> world" where
  "get_stored_companies fails w =
     (case fetch_try fails w of
        (Inl e, w') \<Rightarrow> ([], w')
      | (Inr companies, w') \<Rightarrow> (companies, w'))"

subsection \<open>extract_and_store_companies\<close>

text \<open>
  \<open>[p.strip() for p in essay_text.split('\n\n') if p.strip()]\<close>
\<close>

definition paragraphs :: "string \<Rightarrow> string list" where
  "paragraphs essay_text =
     [strip p. p \<leftarrow> split_str ''\<newline>\<newline>'' essay_text, strip p \<noteq> []]"

text \<open>
  The loop over the paragraphs. \<open>ainvoke\<close> stands for \<open>extraction_chain.ainvoke\<close>: what
  the model call and the output parser return for a paragraph, or the exception they
  raise, which may differ from call to call and so depends on the position of the call
  as well.
\<close>

fun extract_loop ::
  "(nat \<Rightarrow> string \<Rightarrow> error + CompanyInfo list) \<Rightarrow> string list \<Rightarrow> CompanyInfo list \<Rightarrow> world
     \<Rightarrow> CompanyInfo list \<times> world" where
  "extract_loop ainvoke [] all_companies w = (all_companies, w)"
| "extract_loop ainvoke (paragraph # rest) all_companies w =
     (case ainvoke (length (calls w)) paragraph of
        Inl e \<Rightarrow> extract_loop ainvoke rest all_companies (record_call (Ainvoke paragraph) w)
      | Inr result \<Rightarrow>
          extract_loop ainvoke rest (all_companies @ result) (record_call (Ainvoke paragraph) w))"

text \<open>
  \<open>extraction_chain\<close> is \<open>Inl\<close> when building the model client or the chain raises,
  which the outer \<open>except Exception\<close> turns into the empty result.
\<close>

definition extract_and_store_companies ::
  "(error + (nat \<Rightarrow> string \<Rightarrow> error + CompanyInfo list)) \<Rightarrow> (string \<Rightarrow> date option) \<Rightarrow> (nat \<Rightarrow> bool)
     \<Rightarrow> string \<Rightarrow> world \<Rightarrow> stored_row list \<times> world" where
  "extract_and_store_companies extraction_chain strptime fails essay_text w =
     (case extraction_chain of
        Inl e \<Rightarrow> ([], w)
      | Inr ainvoke \<Rightarrow>
          (case extract_loop ainvoke (paragraphs essay_text) [] w of
             (all_companies, w1) \<Rightarrow>
               if all_companies \<noteq> [] then
                 (case insert_companies_to_db strptime fails all_companies w1 of
                    (True, w2) \<Rightarrow> get_stored_companies fails w2
                  | (False, w2) \<Rightarrow> ([], w2))
               else ([], w1)))"

section \<open>Pipeline B: ingestion and the question loop\<close>

subsection \<open>add_chunks_to_vector_db\<close>

text \<open>A \<open>Document\<close> of the document loaders and of the text splitter.\<close>

record Document =
  page_content :: string
  metadata :: "(string \<times> string) list"

text \<open>
  The collection \<open>rag_exercise\<close> under \<open>./chroma_data\<close>: its (chunk, embedding) pairs,
  oldest first.
\<close>

type_synonym 'e collection = "(Document \<times> 'e) list"

text \<open>
  \<open>embeddings\<close> stands for the embedding model: the vector of a text, or the exception of
  the call. A batch is embedded as a whole.
\<close>

fun embed_documents :: "(string \<Rightarrow> error + 'e) \<Rightarrow> string list \<Rightarrow> error + 'e list" where
  "embed_documents embeddings [] = Inr []"
| "embed_documents embeddings (t # ts) =
     (case embeddings t of
        Inl e \<Rightarrow> Inl e
      | Inr v \<Rightarrow> (case embed_documents embeddings ts of Inl e \<Rightarrow> Inl e | Inr vs \<Rightarrow> Inr (v # vs)))"

text \<open>
  Modelled from the spec: the vector store's \<open>add_documents\<close> and \<open>from_documents\<close> are
  library code. Following the Vector Indexer of the specification, a call computes one
  embedding per chunk and persists the (chunk, embedding) pairs in the collection,
  and adding a chunk that is already stored is not deduplicated. \<open>from_documents\<close>
  opens the persisted collection and adds the documents to it. What the library does
  with an empty batch is not modelled.
\<close>

definition add_documents ::
  "(string \<Rightarrow> error + 'e) \<Rightarrow> Document list \<Rightarrow> 'e collection \<Rightarrow> (error + unit) \<times> 'e collection" where
  "add_documents embeddings documents coll =
     (case embed_documents embeddings (map page_content documents) of
        Inl e \<Rightarrow> (Inl e, coll)
      | Inr vectors \<Rightarrow> (Inr (), coll @ zip documents vectors))"

definition from_documents ::
  "(string \<Rightarrow> error + 'e) \<Rightarrow> Document list \<Rightarrow> 'e collection \<Rightarrow> (error + unit) \<times> 'e collection" where
  "from_documents embeddings documents coll = add_documents embeddings documents coll"

text \<open>
  \<open>Chroma.from_documents(documents=chunks, ...)\<close>, then \<open>vector_store.add_documents(chunks)\<close>;
  an exception of either call leaves the function, which has no handler.
\<close>

definition add_chunks_to_vector_db ::
  "(string \<Rightarrow> error + 'e) \<Rightarrow> Document list \<Rightarrow> 'e collection \<Rightarrow> (error + unit) \<times> 'e collection" where
  "add_chunks_to_vector_db embeddings chunks coll =
     (case from_documents embeddings chunks coll of
        (Inl e, vector_store) \<Rightarrow> (Inl e, vector_store)
      | (Inr u, vector_store) \<Rightarrow> add_documents embeddings chunks vector_store)"

subsection \<open>run_interactive_mode\<close>

text \<open>
  The states of the loop: at \<open>input()\<close>, inside \<open>rag_chain.invoke(question)\<close>, and behind
  the \<open>break\<close>. What the loop prints is kept beside them.
\<close>

datatype state = Awaiting_Input | Answering string | Exited

datatype printed = Goodbye | Answer string | Error_line error

text \<open>
  Standard input is the list of the lines still to come; \<open>input()\<close> at its end raises
  \<open>EOFError\<close>, which no handler of the function catches. \<open>invoke\<close> stands for
  \<open>rag_chain.invoke\<close>. The result is the exception that left the function, if any, the
  states passed through and the lines printed.
\<close>

fun run_interactive_mode ::
  "(string \<Rightarrow> error + string) \<Rightarrow> string list \<Rightarrow> (error + unit) \<times> state list \<times> printed list" where
  "run_interactive_mode invoke [] = (Inl EOFError, [Awaiting_Input], [])"
| "run_interactive_mode invoke (line # rest) =
     (let question = strip line
      in if lower question \<in> set [''quit'', ''q''] then (Inr (), [Awaiting_Input, Exited], [Goodbye])
         else if question = [] then
           (case run_interactive_mode invoke rest of
              (r, states, out) \<Rightarrow> (r, Awaiting_Input # states, out))
         else
           (case run_interactive_mode invoke rest of
              (r, states, out) \<Rightarrow>
                (r, Awaiting_Input # Answering question # states,
                 (case invoke question of Inr response \<Rightarrow> Answer response | Inl e \<Rightarrow> Error_line e) # out)))"

section \<open>Vocabulary of the properties\<close>

text \<open>The row that a record becomes under the identifier \<open>i\<close>, once its date is read.\<close>

definition row_of :: "(string \<Rightarrow> date option) \<Rightarrow> nat \<Rightarrow> CompanyInfo \<Rightarrow> stored_row" where
  "row_of strptime i c =
     \<lparr>row_id = i, row_company_name = company_name c,
      founded_in = the (strptime (founding_date c)), founded_by = founders c\<rparr>"

text \<open>The relation after the records \<open>cs\<close> have been appended, in their order.\<close>

definition appended :: "(string \<Rightarrow> date option) \<Rightarrow> CompanyInfo list \<Rightarrow> relation \<Rightarrow> relation" where
  "appended strptime cs r =
     \<lparr>next_id = next_id r + length cs,
      tuples = tuples r @ map (\<lambda>i. row_of strptime (next_id r + i) (cs ! i)) [0..<length cs]\<rparr>"

text \<open>
  A record is accepted by the call at position \<open>n\<close>: its date is read, the call does not
  fail and the name fits the column.
\<close>

definition accepted :: "(string \<Rightarrow> date option) \<Rightarrow> (nat \<Rightarrow> bool) \<Rightarrow> nat \<Rightarrow> CompanyInfo \<Rightarrow> bool" where
  "accepted strptime fails n c =
     (strptime (founding_date c) \<noteq> None \<and> \<not> fails n \<and> length (company_name c) \<le> 255)"

text \<open>What one paragraph contributes: the records of its call, none if the call raises.\<close>

definition contribution ::
  "(nat \<Rightarrow> string \<Rightarrow> error + CompanyInfo list) \<Rightarrow> nat \<Rightarrow> string \<Rightarrow> CompanyInfo list" where
  "contribution ainvoke n paragraph =
     (case ainvoke n paragraph of Inl e \<Rightarrow> [] | Inr result \<Rightarrow> result)"

text \<open>A line that ends the question loop.\<close>

definition quit_sentinel :: "string \<Rightarrow> bool" where
  "quit_sentinel line = (lower (strip line) = ''quit'' \<or> lower (strip line) = ''q'')"

text \<open>
  The states that a sequence of lines without a quit sentinel takes the loop through,
  and what the loop prints for them: a blank line is one wait for input, any other line
  a wait for input and an answer.
\<close>

definition rounds :: "string list \<Rightarrow> state list" where
  "rounds lines =
     concat (map (\<lambda>l. if strip l = [] then [Awaiting_Input] else [Awaiting_Input, Answering (strip l)]) lines)"

definition answers :: "(string \<Rightarrow> error + string) \<Rightarrow> string list \<Rightarrow> printed list" where
  "answers invoke lines =
     concat (map (\<lambda>l. if strip l = [] then []
                       else [case invoke (strip l) of Inr response \<Rightarrow> Answer response | Inl e \<Rightarrow> Error_line e])
                 lines)"

subsection \<open>An environment to run the model in\<close>

text \<open>
  A reader of dates in the strict ten-character layout \<open>YYYY-MM-DD\<close>, an answerer that
  repeats the question and an embedding that measures the text: they instantiate the
  parameters where the model is run on concrete inputs. The properties are proved for
  every reader, every model and every embedding.
\<close>

definition is_digit :: "char \<Rightarrow> bool" where
  "is_digit c = (48 \<le> (of_char c :: nat) \<and> (of_char c :: nat) \<le> 57)"

definition number :: "string \<Rightarrow> nat" where
  "number s = foldl (\<lambda>n c. 10 * n + (of_char c - 48)) 0 s"

definition days_in_month :: "nat \<Rightarrow> nat \<Rightarrow> nat" where
  "days_in_month y m =
     (if m = 2 then (if y mod 4 = 0 \<and> (y mod 100 \<noteq> 0 \<or> y mod 400 = 0) then 29 else 28)
      else if m = 4 \<or> m = 6 \<or> m = 9 \<or> m = 11 then 30 else 31)"

definition strptime_iso :: "string \<Rightarrow> date option" where
  "strptime_iso s =
     (if length s = 10 \<and> s ! 4 = CHR ''-'' \<and> s ! 7 = CHR ''-''
         \<and> list_all is_digit (take 4 s @ take 2 (drop 5 s) @ drop 8 s)
      then (let y = number (take 4 s); m = number (take 2 (drop 5 s)); d = number (drop 8 s)
            in if 1 \<le> y \<and> 1 \<le> m \<and> m \<le> 12 \<and> 1 \<le> d \<and> d \<le> days_in_month y m
               then Some (y, m, d) else None)
      else None)"

definition echo :: "string \<Rightarrow> error + string" where
  "echo question = Inr question"

definition text_length :: "string \<Rightarrow> error + nat" where
  "text_length t = Inr (length t)"

definition no_failure :: "nat \<Rightarrow> bool" where
  "no_failure n = False"

definition empty_world :: world where
  "empty_world = \<lparr>company_details = None, calls = []\<rparr>"

text \<open>Three records as the model may return them, the third with a date that is only a year.\<close>

definition apple :: CompanyInfo where
  "apple = \<lparr>company_name = ''Apple Inc.'', founding_date = ''1976-04-01'',
            founders = [''Steve Jobs'', ''Steve Wozniak'', ''Ronald Wayne'']\<rparr>"

definition sony :: CompanyInfo where
  "sony = \<lparr>company_name = ''Sony Corporation'', founding_date = ''1946-05-07'',
           founders = [''Masaru Ibuka'', ''Akio Morita'']\<rparr>"

definition stripe :: CompanyInfo where
  "stripe = \<lparr>company_name = ''Stripe, Inc.'', founding_date = ''2010'',
             founders = [''Patrick Collison'', ''John Collison'']\<rparr>"

text \<open>The rows of the first two, under the identifiers 1 and 2.\<close>

definition apple_row :: stored_row where
  "apple_row = \<lparr>row_id = 1, row_company_name = ''Apple Inc.'', founded_in = (1976, 4, 1),
                founded_by = [''Steve Jobs'', ''Steve Wozniak'', ''Ronald Wayne'']\<rparr>"

definition sony_row :: stored_row where
  "sony_row = \<lparr>row_id = 2, row_company_name = ''Sony Corporation'', founded_in = (1946, 5, 7),
               founded_by = [''Masaru Ibuka'', ''Akio Morita'']\<rparr>"

text \<open>Two chunks of loaded documents.\<close>

definition code_of_conduct :: Document where
  "code_of_conduct = \<lparr>page_content = ''Be kind.'', metadata = [(''title'', ''Code of Conduct'')]\<rparr>"

definition nomination :: Document where
  "nomination = \<lparr>page_content = ''Nominate a peer.'', metadata = [(''title'', ''Nomination Guidelines'')]\<rparr>"

text \<open>A model call that finds the same company in every paragraph.\<close>

definition always_apple :: "nat \<Rightarrow> string \<Rightarrow> error + CompanyInfo list" where
  "always_apple n paragraph = Inr [apple]"

text \<open>A model call that fails the second time it is made.\<close>

definition flaky :: "nat \<Rightarrow> string \<Rightarrow> error + CompanyInfo list" where
  "flaky n paragraph = (if n = 0 then Inr [apple] else if n = 1 then Inl ModelError else Inr [sony])"

section \<open>Properties of the string operations\<close>

lemma split_str_not_Nil: "split_str sep s \<noteq> []"
  by (induction sep s rule: split_str.induct) (auto simp: neq_Nil_conv elim: attach.elims)

lemma attach_not_Nil: "attach c segs \<noteq> []"
  by (cases segs) auto

lemma join_str_Cons: "segs \<noteq> [] \<Longrightarrow> join_str sep (seg # segs) = seg @ sep @ join_str sep segs"
  by (cases segs) auto

lemma join_str_attach: "segs \<noteq> [] \<Longrightarrow> join_str sep (attach c segs) = c # join_str sep segs"
proof (cases segs)
  case Nil
  then show ?thesis by simp
next
  case (Cons seg rest)
  then show ?thesis by (cases rest) auto
qed

lemma join_split_str: "join_str sep (split_str sep s) = s"
proof (induction sep s rule: split_str.induct)
  case (1 sep)
  show ?case by simp
next
  case (2 sep c cs)
  show ?case
  proof (cases "sep \<noteq> [] \<and> prefix sep (c # cs)")
    case True
    then have "sep @ drop (length sep) (c # cs) = c # cs"
      by (metis append_eq_conv_conj prefixE)
    with True 2 show ?thesis
      by (simp add: join_str_Cons split_str_not_Nil)
  next
    case False
    with 2 show ?thesis
      by (auto simp: join_str_attach split_str_not_Nil)
  qed
qed

lemma hd_split_str_prefix: "prefix (hd (split_str sep s)) s"
proof (induction sep s rule: split_str.induct)
  case (1 sep)
  show ?case by simp
next
  case (2 sep c cs)
  show ?case
  proof (cases "sep \<noteq> [] \<and> prefix sep (c # cs)")
    case True
    then show ?thesis by simp
  next
    case False
    obtain seg segs where s: "split_str sep cs = seg # segs"
      using split_str_not_Nil [of sep cs] by (cases "split_str sep cs") auto
    with 2 False show ?thesis by auto
  qed
qed

lemma split_str_no_sep:
  "sep \<noteq> [] \<Longrightarrow> seg \<in> set (split_str sep s) \<Longrightarrow> \<not> sublist sep seg"
proof (induction sep s arbitrary: seg rule: split_str.induct)
  case (1 sep)
  then show ?case by simp
next
  case (2 sep c cs)
  show ?case
  proof (cases "prefix sep (c # cs)")
    case True
    with 2 show ?thesis by auto
  next
    case False
    obtain seg0 segs where s: "split_str sep cs = seg0 # segs"
      using split_str_not_Nil [of sep cs] by (cases "split_str sep cs") auto
    have p: "prefix seg0 cs"
      using hd_split_str_prefix [of sep cs] s by simp
    from 2 False s have "seg = c # seg0 \<or> seg \<in> set segs" by auto
    then show ?thesis
    proof
      assume e: "seg = c # seg0"
      have "\<not> prefix sep (c # seg0)"
        using False p by (meson Cons_prefix_Cons prefix_order.trans)
      moreover have "\<not> sublist sep seg0"
        using 2 False s by auto
      ultimately show ?thesis using e by (simp add: sublist_Cons_right)
    next
      assume "seg \<in> set segs"
      with 2 False s show ?thesis by auto
    qed
  qed
qed

lemma split_str_chars: "seg \<in> set (split_str sep s) \<Longrightarrow> set seg \<subseteq> set s"
proof (induction sep s arbitrary: seg rule: split_str.induct)
  case (1 sep)
  then show ?case by simp
next
  case (2 sep c cs)
  show ?case
  proof (cases "sep \<noteq> [] \<and> prefix sep (c # cs)")
    case True
    with 2 have "seg = [] \<or> set seg \<subseteq> set (drop (length sep) (c # cs))" by auto
    then show ?thesis
      using set_drop_subset [of "length sep" "c # cs"] by auto
  next
    case False
    obtain seg0 segs where s: "split_str sep cs = seg0 # segs"
      using split_str_not_Nil [of sep cs] by (cases "split_str sep cs") auto
    from 2 False s have "seg = c # seg0 \<or> seg \<in> set segs" by auto
    with 2(2) [of seg0] 2(2) [of seg] False s show ?thesis by auto
  qed
qed

lemma strip_Nil_iff: "strip s = [] \<longleftrightarrow> (\<forall>c\<in>set s. isspace c)"
proof
  assume "strip s = []"
  then have a: "\<forall>c\<in>set (dropWhile isspace s). isspace c"
    by (simp add: strip_def)
  have "dropWhile isspace s = []"
  proof (rule ccontr)
    assume n: "dropWhile isspace s \<noteq> []"
    then have "\<not> isspace (hd (dropWhile isspace s))" by (rule hd_dropWhile)
    with a n show False using hd_in_set by blast
  qed
  then show "\<forall>c\<in>set s. isspace c" by simp
next
  assume "\<forall>c\<in>set s. isspace c"
  then have d: "dropWhile isspace s = []" by simp
  show "strip s = []" by (simp only: strip_def d rev.simps dropWhile.simps)
qed

lemma strip_all_space: "(\<forall>c\<in>set s. isspace c) \<Longrightarrow> strip s = []"
  by (simp add: strip_Nil_iff)

lemma strip_ends:
  assumes "strip s \<noteq> []"
  shows "\<not> isspace (hd (strip s)) \<and> \<not> isspace (last (strip s))"
proof -
  let ?t = "dropWhile isspace s"
  let ?u = "dropWhile isspace (rev ?t)"
  from assms have u: "?u \<noteq> []" by (simp add: strip_def)
  then have t: "?t \<noteq> []" by (metis dropWhile.simps(1) rev.simps(1))
  have "\<not> isspace (hd ?u)" using u by (rule hd_dropWhile)
  then have l: "\<not> isspace (last (strip s))"
    using u by (simp add: strip_def last_rev)
  obtain a where a: "rev ?t = a @ ?u"
    by (metis takeWhile_dropWhile_id)
  have "last ?u = last (rev ?t)" using a u by (metis last_appendR)
  also have "\<dots> = hd ?t" using t by (simp add: last_rev)
  finally have "hd (strip s) = hd ?t" using u by (simp add: strip_def hd_rev)
  moreover have "\<not> isspace (hd ?t)" using t by (rule hd_dropWhile)
  ultimately show ?thesis using l by simp
qed

lemma strip_decomp:
  "\<exists>a b. s = a @ strip s @ b \<and> (\<forall>c\<in>set a. isspace c) \<and> (\<forall>c\<in>set b. isspace c)"
proof -
  let ?a = "takeWhile isspace s"
  let ?t = "dropWhile isspace s"
  let ?b = "rev (takeWhile isspace (rev ?t))"
  have "rev ?t = takeWhile isspace (rev ?t) @ dropWhile isspace (rev ?t)" by simp
  then have "?t = strip s @ ?b"
    unfolding strip_def by (metis rev_append rev_rev_ident)
  then have "s = ?a @ strip s @ ?b" by (metis takeWhile_dropWhile_id)
  moreover have "\<forall>c\<in>set ?a. isspace c" by (auto dest: set_takeWhileD)
  moreover have "\<forall>c\<in>set ?b. isspace c" by (auto dest: set_takeWhileD)
  ultimately show ?thesis by blast
qed

lemma paragraphs_filter:
  "paragraphs essay_text = filter (\<lambda>p. p \<noteq> []) (map strip (split_str ''\<newline>\<newline>'' essay_text))"
proof -
  have "concat (map (\<lambda>p. if strip p \<noteq> [] then [strip p] else []) segs) =
        filter (\<lambda>p. p \<noteq> []) (map strip segs)" for segs
    by (induction segs) auto
  then show ?thesis unfolding paragraphs_def by simp
qed

lemma paragraphs_whitespace:
  assumes "\<forall>c\<in>set essay_text. isspace c"
  shows "paragraphs essay_text = []"
proof -
  have "strip seg = []" if "seg \<in> set (split_str ''\<newline>\<newline>'' essay_text)" for seg
    using split_str_chars [OF that] assms by (intro strip_all_space) auto
  then show ?thesis
    by (auto simp: paragraphs_filter filter_empty_conv)
qed

lemma extract_loop_spec:
  "extract_loop ainvoke ps acc w =
     (acc @ concat (map (\<lambda>i. case ainvoke (length (calls w) + i) (ps ! i) of Inl e \<Rightarrow> [] | Inr result \<Rightarrow> result)
                        [0..<length ps]),
      w\<lparr>calls := calls w @ map Ainvoke ps\<rparr>)"
proof (induction ps arbitrary: acc w)
  case Nil
  show ?case by simp
next
  case (Cons p ps)
  have u: "[0..<length (p # ps)] = 0 # map Suc [0..<length ps]"
    by (simp add: upt_conv_Cons map_Suc_upt del: upt_Suc)
  show ?case
    unfolding u by (simp add: Cons record_call_def comp_def split: sum.splits)
qed

section \<open>Properties of the extraction pipeline\<close>

lemma join_str_chars: "set (join_str sep segs) \<subseteq> set sep \<union> \<Union> (set ` set segs)"
  by (induction sep segs rule: join_str.induct) auto

lemma paragraphs_Nil_iff: "paragraphs essay_text = [] \<longleftrightarrow> (\<forall>c\<in>set essay_text. isspace c)"
proof
  assume e: "paragraphs essay_text = []"
  let ?segs = "split_str ''\<newline>\<newline>'' essay_text"
  have s: "\<forall>seg\<in>set ?segs. \<forall>c\<in>set seg. isspace c"
    using e by (auto simp: paragraphs_filter filter_empty_conv strip_Nil_iff)
  have "set essay_text \<subseteq> set ''\<newline>\<newline>'' \<union> \<Union> (set ` set ?segs)"
    using join_str_chars [of "''\<newline>\<newline>''" ?segs] by (simp only: join_split_str)
  moreover have "\<forall>c\<in>set ''\<newline>\<newline>''. isspace c" by (simp add: isspace_def)
  ultimately show "\<forall>c\<in>set essay_text. isspace c" using s by blast
next
  assume "\<forall>c\<in>set essay_text. isspace c"
  then show "paragraphs essay_text = []" by (rule paragraphs_whitespace)
qed

text \<open>
  C4. The Paragraph Splitter cuts the essay at every pair of newlines (the segments,
  joined by the separator again, give the essay back, and no segment contains the
  separator), trims each segment (a segment is its trimmed form between two runs of
  whitespace), drops the segments that are empty after trimming and keeps the order of
  the others. So every paragraph is non-empty and neither starts nor ends with
  whitespace, and the empty essay has no paragraphs.
\<close>

theorem paragraph_splitter:
  "join_str ''\<newline>\<newline>'' (split_str ''\<newline>\<newline>'' essay_text) = essay_text
   \<and> (\<forall>seg\<in>set (split_str ''\<newline>\<newline>'' essay_text). \<not> sublist ''\<newline>\<newline>'' seg)
   \<and> paragraphs essay_text = filter (\<lambda>p. p \<noteq> []) (map strip (split_str ''\<newline>\<newline>'' essay_text))
   \<and> (\<forall>seg. \<exists>a b. seg = a @ strip seg @ b \<and> list_all isspace a \<and> list_all isspace b)
   \<and> (\<forall>p\<in>set (paragraphs essay_text). p \<noteq> [] \<and> \<not> isspace (hd p) \<and> \<not> isspace (last p))
   \<and> paragraphs [] = []"
proof (intro conjI)
  show "join_str ''\<newline>\<newline>'' (split_str ''\<newline>\<newline>'' essay_text) = essay_text"
    by (rule join_split_str)
  show "\<forall>seg\<in>set (split_str ''\<newline>\<newline>'' essay_text). \<not> sublist ''\<newline>\<newline>'' seg"
    using split_str_no_sep [of "''\<newline>\<newline>''"] by blast
  show "paragraphs essay_text = filter (\<lambda>p. p \<noteq> []) (map strip (split_str ''\<newline>\<newline>'' essay_text))"
    by (rule paragraphs_filter)
  show "\<forall>seg. \<exists>a b. seg = a @ strip seg @ b \<and> list_all isspace a \<and> list_all isspace b"
    using strip_decomp by (simp add: list_all_iff)
  show "\<forall>p\<in>set (paragraphs essay_text). p \<noteq> [] \<and> \<not> isspace (hd p) \<and> \<not> isspace (last p)"
    using strip_ends by (auto simp: paragraphs_filter)
  show "paragraphs [] = []"
    by (simp add: paragraphs_def strip_def)
qed

theorem paragraph_splitter_witness:
  "paragraphs '' Early Foundations \<newline>\<newline>\<newline>  Sony was established in 1946.\<newline>\<newline>  \<newline>\<newline>End''
     = [''Early Foundations'', ''Sony was established in 1946.'', ''End'']
   \<and> split_str ''\<newline>\<newline>'' ''a\<newline>\<newline>\<newline>b'' = [''a'', ''\<newline>b'']
   \<and> join_str ''\<newline>\<newline>'' (split_str ''\<newline>\<newline>'' ''a\<newline>\<newline>\<newline>b'') = ''a\<newline>\<newline>\<newline>b''
   \<and> paragraphs ''a\<newline>\<newline>\<newline>b'' = [''a'', ''b'']"
  using paragraph_splitter [of "''a\<newline>\<newline>\<newline>b''"]
  by (simp add: paragraphs_def strip_def isspace_def)

text \<open>
  C5. An essay has no paragraphs exactly when it is empty or consists of whitespace
  only. For such an essay \<open>extract_and_store_companies\<close> returns no rows and leaves the
  world as it was: no model call, no connection, no insertion.
\<close>

theorem whitespace_essay_stores_nothing:
  "(paragraphs essay_text = [] \<longleftrightarrow> (\<forall>c\<in>set essay_text. isspace c))
   \<and> ((\<forall>c\<in>set essay_text. isspace c) \<longrightarrow>
        extract_and_store_companies extraction_chain strptime fails essay_text w = ([], w))"
proof (intro conjI impI)
  show "paragraphs essay_text = [] \<longleftrightarrow> (\<forall>c\<in>set essay_text. isspace c)"
    by (rule paragraphs_Nil_iff)
next
  assume "\<forall>c\<in>set essay_text. isspace c"
  then have "paragraphs essay_text = []" by (rule paragraphs_whitespace)
  then show "extract_and_store_companies extraction_chain strptime fails essay_text w = ([], w)"
    by (simp add: extract_and_store_companies_def split: sum.splits)
qed

theorem whitespace_essay_stores_nothing_witness:
  "list_all isspace '' \<newline>\<newline>   \<newline>''
   \<and> paragraphs '' \<newline>\<newline>   \<newline>'' = []
   \<and> extract_and_store_companies (Inr always_apple) strptime_iso no_failure '' \<newline>\<newline>   \<newline>'' empty_world
       = ([], empty_world)"
proof -
  have h: "\<forall>c\<in>set '' \<newline>\<newline>   \<newline>''. isspace c" by (simp add: isspace_def)
  show ?thesis
    using h whitespace_essay_stores_nothing
      [of "'' \<newline>\<newline>   \<newline>''" "Inr always_apple" strptime_iso no_failure empty_world]
    by (simp add: list_all_iff)
qed

text \<open>
  C6. The loop over the paragraphs calls the model once per paragraph, in their order
  (the log grows by exactly these calls: nothing is retried), and the records collected
  are the contributions of the paragraphs one after the other, where a paragraph whose
  call raises contributes nothing and changes no other contribution.
\<close>

theorem extraction_skips_failed_paragraphs:
  "extract_loop ainvoke ps [] w =
     (concat (map (\<lambda>i. contribution ainvoke (length (calls w) + i) (ps ! i)) [0..<length ps]),
      w\<lparr>calls := calls w @ map Ainvoke ps\<rparr>)"
  by (simp add: extract_loop_spec contribution_def)

theorem extraction_skips_failed_paragraphs_witness:
  "extract_loop flaky [''Apple was born.'', ''No company here.'', ''Sony was established.''] [] empty_world
     = ([apple, sony],
        \<lparr>company_details = None,
         calls = [Ainvoke ''Apple was born.'', Ainvoke ''No company here.'', Ainvoke ''Sony was established.'']\<rparr>)
   \<and> contribution flaky 1 ''No company here.'' = []"
  using extraction_skips_failed_paragraphs
    [of flaky "[''Apple was born.'', ''No company here.'', ''Sony was established.'']" empty_world]
  by (simp add: flaky_def contribution_def empty_world_def record_call_def)

section \<open>Properties of the Company Store\<close>

lemma upt_0_Suc_map: "[0..<Suc n] = 0 # map Suc [0..<n]"
  by (simp add: upt_conv_Cons map_Suc_upt del: upt_Suc)

lemma appended_Nil: "appended strptime [] r = r"
  by (simp add: appended_def)

lemma appended_Cons:
  "appended strptime (c # cs) r = appended strptime cs (appended strptime [c] r)"
  unfolding appended_def length_Cons upt_0_Suc_map
  by (simp add: comp_def)

lemma execute_insert_accepted:
  assumes "company_details w = Some r" and "accepted strptime fails (length (calls w)) c"
    and "strptime (founding_date c) = Some d"
  shows "execute_insert fails (company_name c) d (founders c) w =
           (Inr (), w\<lparr>calls := calls w @ [Execute_insert (company_name c) d (founders c)],
                      company_details := Some (appended strptime [c] r)\<rparr>)"
  using assms
  by (simp add: execute_insert_def accepted_def insert_row_def record_call_def appended_def row_of_def
      Let_def)

lemma execute_insert_refused:
  assumes "\<not> accepted strptime fails (length (calls w)) c"
    and "strptime (founding_date c) = Some d"
  shows "\<exists>e. execute_insert fails (company_name c) d (founders c) w =
           (Inl e, w\<lparr>calls := calls w @ [Execute_insert (company_name c) d (founders c)]\<rparr>)"
  using assms
  by (auto simp: execute_insert_def accepted_def insert_row_def record_call_def Let_def
      split: option.splits)

lemma insert_loop_spec:
  assumes "company_details w = Some r"
  shows "\<exists>k\<le>length cs.
      company_details (snd (insert_loop strptime fails cs w)) = Some (appended strptime (take k cs) r)
    \<and> (\<forall>i<k. accepted strptime fails (length (calls w) + i) (cs ! i))
    \<and> (k < length cs \<longrightarrow> \<not> accepted strptime fails (length (calls w) + k) (cs ! k)
          \<and> (\<exists>e. fst (insert_loop strptime fails cs w) = Inl e))
    \<and> (k = length cs \<longrightarrow> fst (insert_loop strptime fails cs w) = Inr ()
          \<and> length (calls (snd (insert_loop strptime fails cs w))) = length (calls w) + length cs)
    \<and> count_list (calls (snd (insert_loop strptime fails cs w))) Connect = count_list (calls w) Connect"
  using assms
proof (induction cs arbitrary: w r)
  case Nil
  then show ?case by (simp add: appended_Nil)
next
  case (Cons c cs)
  show ?case
  proof (cases "accepted strptime fails (length (calls w)) c")
    case False
    have "company_details (snd (insert_loop strptime fails (c # cs) w)) = Some r
        \<and> (\<exists>e. fst (insert_loop strptime fails (c # cs) w) = Inl e)
        \<and> count_list (calls (snd (insert_loop strptime fails (c # cs) w))) Connect
            = count_list (calls w) Connect"
    proof (cases "strptime (founding_date c)")
      case None
      then show ?thesis using Cons.prems by simp
    next
      case (Some d)
      from execute_insert_refused [OF False Some] obtain e where
        "execute_insert fails (company_name c) d (founders c) w =
           (Inl e, w\<lparr>calls := calls w @ [Execute_insert (company_name c) d (founders c)]\<rparr>)" ..
      then show ?thesis using Some Cons.prems by simp
    qed
    with False show ?thesis
      by (intro exI [of _ 0]) (simp add: appended_Nil)
  next
    case True
    then obtain d where d: "strptime (founding_date c) = Some d"
      by (auto simp: accepted_def)
    let ?w1 = "w\<lparr>calls := calls w @ [Execute_insert (company_name c) d (founders c)],
                  company_details := Some (appended strptime [c] r)\<rparr>"
    have step: "insert_loop strptime fails (c # cs) w = insert_loop strptime fails cs ?w1"
      using execute_insert_accepted [OF Cons.prems True d] d by simp
    have "company_details ?w1 = Some (appended strptime [c] r)" by simp
    from Cons.IH [OF this] obtain k where k: "k \<le> length cs"
      "company_details (snd (insert_loop strptime fails cs ?w1))
         = Some (appended strptime (take k cs) (appended strptime [c] r))"
      "\<forall>i<k. accepted strptime fails (length (calls ?w1) + i) (cs ! i)"
      "k < length cs \<longrightarrow> \<not> accepted strptime fails (length (calls ?w1) + k) (cs ! k)
          \<and> (\<exists>e. fst (insert_loop strptime fails cs ?w1) = Inl e)"
      "k = length cs \<longrightarrow> fst (insert_loop strptime fails cs ?w1) = Inr ()
          \<and> length (calls (snd (insert_loop strptime fails cs ?w1))) = length (calls ?w1) + length cs"
      "count_list (calls (snd (insert_loop strptime fails cs ?w1))) Connect = count_list (calls ?w1) Connect"
      by blast
    have all: "\<forall>i<Suc k. accepted strptime fails (length (calls w) + i) ((c # cs) ! i)"
    proof (intro allI impI)
      fix i assume "i < Suc k"
      then show "accepted strptime fails (length (calls w) + i) ((c # cs) ! i)"
        using True k(3) by (cases i) auto
    qed
    show ?thesis
    proof (intro exI [of _ "Suc k"] conjI)
      show "Suc k \<le> length (c # cs)" using k(1) by simp
      show "company_details (snd (insert_loop strptime fails (c # cs) w))
              = Some (appended strptime (take (Suc k) (c # cs)) r)"
        using k(2) by (simp only: step take_Suc_Cons appended_Cons [of strptime c "take k cs"])
      show "\<forall>i<Suc k. accepted strptime fails (length (calls w) + i) ((c # cs) ! i)"
        by (rule all)
      show "Suc k < length (c # cs) \<longrightarrow>
              \<not> accepted strptime fails (length (calls w) + Suc k) ((c # cs) ! Suc k)
              \<and> (\<exists>e. fst (insert_loop strptime fails (c # cs) w) = Inl e)"
        using k(4) unfolding step by simp
      show "Suc k = length (c # cs) \<longrightarrow> fst (insert_loop strptime fails (c # cs) w) = Inr ()
              \<and> length (calls (snd (insert_loop strptime fails (c # cs) w)))
                  = length (calls w) + length (c # cs)"
        using k(5) unfolding step by simp
      show "count_list (calls (snd (insert_loop strptime fails (c # cs) w))) Connect
              = count_list (calls w) Connect"
        using k(6) unfolding step by simp
    qed
  qed
qed

lemma create_table_Some: "\<exists>r. create_table_if_not_exists t = Some r"
  by (simp add: create_table_if_not_exists_def split: option.splits)

lemma insert_try_unreachable:
  assumes "fails (length (calls w)) \<or> fails (Suc (length (calls w)))"
  shows "\<exists>e w'. insert_try strptime fails cs w = (Inl e, w')
           \<and> company_details w' = company_details w
           \<and> count_list (calls w') Connect = Suc (count_list (calls w) Connect)"
  using assms
  by (auto simp: insert_try_def connect_def execute_create_def record_call_def)

lemma insert_try_reachable:
  assumes "\<not> fails (length (calls w))" and "\<not> fails (Suc (length (calls w)))"
    and "create_table_if_not_exists (company_details w) = Some r"
  shows "\<exists>k\<le>length cs.
      company_details (snd (insert_try strptime fails cs w)) = Some (appended strptime (take k cs) r)
    \<and> (\<forall>i<k. accepted strptime fails (length (calls w) + 2 + i) (cs ! i))
    \<and> (k < length cs \<longrightarrow> \<not> accepted strptime fails (length (calls w) + 2 + k) (cs ! k))
    \<and> (fst (insert_try strptime fails cs w) = Inr ()
          \<longleftrightarrow> k = length cs \<and> \<not> fails (length (calls w) + 2 + k))
    \<and> (k = length cs \<longrightarrow> length (calls (snd (insert_try strptime fails cs w))) = length (calls w) + length cs + 3)
    \<and> count_list (calls (snd (insert_try strptime fails cs w))) Connect = Suc (count_list (calls w) Connect)"
proof -
  let ?w2 = "record_call Execute_create
               (record_call Connect w\<lparr>company_details := create_table_if_not_exists (company_details (record_call Connect w))\<rparr>)"
  have cd: "company_details ?w2 = Some r" and len: "length (calls ?w2) = length (calls w) + 2"
    and cnt: "count_list (calls ?w2) Connect = Suc (count_list (calls w) Connect)"
    using assms(3) by (simp_all add: record_call_def)
  let ?l = "insert_loop strptime fails cs ?w2"
  have tr: "insert_try strptime fails cs w =
      (case ?l of (Inl e, w3) \<Rightarrow> (Inl e, w3) | (Inr u, w3) \<Rightarrow> close fails w3)"
    using assms(1,2) by (simp add: insert_try_def connect_def execute_create_def record_call_def)
  from insert_loop_spec [OF cd, of cs strptime fails] obtain k where k: "k \<le> length cs"
    "company_details (snd ?l) = Some (appended strptime (take k cs) r)"
    "\<forall>i<k. accepted strptime fails (length (calls ?w2) + i) (cs ! i)"
    "k < length cs \<longrightarrow> \<not> accepted strptime fails (length (calls ?w2) + k) (cs ! k)
        \<and> (\<exists>e. fst ?l = Inl e)"
    "k = length cs \<longrightarrow> fst ?l = Inr () \<and> length (calls (snd ?l)) = length (calls ?w2) + length cs"
    "count_list (calls (snd ?l)) Connect = count_list (calls ?w2) Connect"
    by blast
  obtain res w3 where l: "?l = (res, w3)" by (cases ?l)
  show ?thesis
  proof (cases "k = length cs")
    case True
    with k(5) l have res: "res = Inr ()" and l3: "length (calls w3) = length (calls w) + 2 + length cs"
      by (simp_all add: len)
    have t: "insert_try strptime fails cs w = close fails w3"
      by (simp only: tr l res) simp
    show ?thesis
      using k(1,2,3,4,6) True l l3 len cnt
      by (intro exI [of _ k]) (auto simp: t close_def record_call_def)
  next
    case False
    with k(1,4) l obtain e where res: "res = Inl e" by auto
    have t: "insert_try strptime fails cs w = (Inl e, w3)"
      by (simp only: tr l res) simp
    show ?thesis
      using k(1,2,3,4,6) False l len cnt
      by (intro exI [of _ k]) (auto simp: t)
  qed
qed

text \<open>
  C2. \<open>insert_companies_to_db\<close> returns a boolean and a changed world, whatever fails:
  every exception is a branch that returns \<open>False\<close>. It opens exactly one connection.
  If the connection or the schema statement fails, nothing is stored. Otherwise the
  schema is ensured and the records are inserted one row each, in their order and with
  their lists of founders as they are, up to the first record that is not accepted (its
  date cannot be read, its statement fails, or its name is too long): the rows before
  it are stored, no row from it on is, and the result is \<open>False\<close>. The result is \<open>True\<close>
  exactly when every record was accepted and closing the connection did not fail.
\<close>

theorem insert_companies_to_db_spec:
  assumes "insert_companies_to_db strptime fails companies w = (ok, w')"
  shows "count_list (calls w') Connect = Suc (count_list (calls w) Connect)
    \<and> (fails (length (calls w)) \<or> fails (Suc (length (calls w)))
         \<longrightarrow> \<not> ok \<and> company_details w' = company_details w)
    \<and> (\<not> fails (length (calls w)) \<and> \<not> fails (Suc (length (calls w))) \<longrightarrow>
         (\<exists>k r. k \<le> length companies
            \<and> create_table_if_not_exists (company_details w) = Some r
            \<and> company_details w' = Some (appended strptime (take k companies) r)
            \<and> (\<forall>i<k. accepted strptime fails (length (calls w) + 2 + i) (companies ! i))
            \<and> (k < length companies \<longrightarrow>
                  \<not> accepted strptime fails (length (calls w) + 2 + k) (companies ! k))
            \<and> (ok \<longleftrightarrow> k = length companies \<and> \<not> fails (length (calls w) + 2 + k))))"
proof (cases "fails (length (calls w)) \<or> fails (Suc (length (calls w)))")
  case True
  from insert_try_unreachable [OF True, of strptime companies] obtain e v where
    "insert_try strptime fails companies w = (Inl e, v)" "company_details v = company_details w"
    "count_list (calls v) Connect = Suc (count_list (calls w) Connect)"
    by blast
  with assms True show ?thesis
    by (auto simp: insert_companies_to_db_def)
next
  case False
  obtain r where r: "create_table_if_not_exists (company_details w) = Some r"
    using create_table_Some by blast
  obtain res v where t: "insert_try strptime fails companies w = (res, v)"
    by (cases "insert_try strptime fails companies w")
  from assms t have v: "w' = v" and ok: "ok \<longleftrightarrow> res = Inr ()"
    by (auto simp: insert_companies_to_db_def split: sum.splits)
  from False have f: "\<not> fails (length (calls w))" "\<not> fails (Suc (length (calls w)))" by auto
  from insert_try_reachable [OF f r, of companies strptime] obtain k where
    "k \<le> length companies"
    "company_details w' = Some (appended strptime (take k companies) r)"
    "\<forall>i<k. accepted strptime fails (length (calls w) + 2 + i) (companies ! i)"
    "k < length companies \<longrightarrow> \<not> accepted strptime fails (length (calls w) + 2 + k) (companies ! k)"
    "ok \<longleftrightarrow> k = length companies \<and> \<not> fails (length (calls w) + 2 + k)"
    "count_list (calls w') Connect = Suc (count_list (calls w) Connect)"
    unfolding t v ok fst_conv snd_conv by blast
  with False r show ?thesis by blast
qed

lemma rebuild_rows:
  "map (\<lambda>row. \<lparr>row_id = row_id row, row_company_name = row_company_name row,
                founded_in = founded_in row, founded_by = founded_by row\<rparr>) rows = rows"
  by (induction rows) auto

lemma get_stored_companies_cases:
  "get_stored_companies fails w =
     (if \<not> fails (length (calls w)) \<and> \<not> fails (Suc (length (calls w)))
          \<and> \<not> fails (Suc (Suc (length (calls w))))
      then (case company_details w of
              None \<Rightarrow> ([], w\<lparr>calls := calls w @ [Connect, Fetch]\<rparr>)
            | Some r \<Rightarrow> (sort_key founded_in (tuples r), w\<lparr>calls := calls w @ [Connect, Fetch, Close]\<rparr>))
      else ([], snd (get_stored_companies fails w)))"
  by (simp add: get_stored_companies_def fetch_try_def connect_def fetch_ordered_def close_def
      record_call_def rebuild_rows split: option.splits)

lemma get_stored_companies_details:
  "company_details (snd (get_stored_companies fails w)) = company_details w"
  by (simp add: get_stored_companies_def fetch_try_def connect_def fetch_ordered_def close_def
      record_call_def split: option.splits)

text \<open>
  C3. \<open>get_stored_companies\<close> returns a list of rows, whatever fails, and never changes
  the relation. The list is ordered by \<open>founded_in\<close>. When the connection, the query and
  the closing succeed, it holds exactly the stored rows; when one of them fails, or the
  relation does not exist or is empty, it is the empty list.
\<close>

theorem get_stored_companies_spec:
  assumes "get_stored_companies fails w = (rows, w')"
  shows "sorted (map founded_in rows)
    \<and> company_details w' = company_details w
    \<and> (\<not> fails (length (calls w)) \<and> \<not> fails (length (calls w) + 1) \<and> \<not> fails (length (calls w) + 2)
         \<and> company_details w = Some r \<longrightarrow> mset rows = mset (tuples r))
    \<and> (fails (length (calls w)) \<or> fails (length (calls w) + 1) \<or> fails (length (calls w) + 2)
         \<or> company_details w = None \<or> company_details w = Some r \<and> tuples r = [] \<longrightarrow> rows = [])"
proof -
  have d: "company_details w' = company_details w"
    using get_stored_companies_details [of fails w] assms by simp
  have "rows = fst (get_stored_companies fails w)" using assms by simp
  then have rows: "rows =
     (if \<not> fails (length (calls w)) \<and> \<not> fails (Suc (length (calls w)))
          \<and> \<not> fails (Suc (Suc (length (calls w))))
      then (case company_details w of None \<Rightarrow> [] | Some r \<Rightarrow> sort_key founded_in (tuples r))
      else [])"
    by (subst (asm) get_stored_companies_cases) (simp split: option.splits)
  have "sorted (map founded_in rows)"
    by (simp add: rows split: option.splits)
  moreover have "\<not> fails (length (calls w)) \<and> \<not> fails (length (calls w) + 1) \<and> \<not> fails (length (calls w) + 2)
         \<and> company_details w = Some r \<longrightarrow> mset rows = mset (tuples r)"
    by (simp add: rows)
  moreover have "fails (length (calls w)) \<or> fails (length (calls w) + 1) \<or> fails (length (calls w) + 2)
         \<or> company_details w = None \<or> company_details w = Some r \<and> tuples r = [] \<longrightarrow> rows = []"
    by (auto simp: rows)
  ultimately show ?thesis using d by blast
qed

lemmas run_defs =
  insert_companies_to_db_def insert_try_def connect_def execute_create_def execute_insert_def
  close_def record_call_def create_table_if_not_exists_def insert_row_def
  get_stored_companies_def fetch_try_def fetch_ordered_def
  strptime_iso_def number_def is_digit_def days_in_month_def no_failure_def empty_world_def
  apple_def sony_def stripe_def apple_row_def sony_row_def

theorem insert_companies_to_db_spec_witness:
  "insert_companies_to_db strptime_iso no_failure [apple, stripe, sony] empty_world =
     (False, \<lparr>company_details = Some \<lparr>next_id = 2, tuples = [apple_row]\<rparr>,
              calls = [Connect, Execute_create,
                       Execute_insert ''Apple Inc.'' (1976, 4, 1)
                         [''Steve Jobs'', ''Steve Wozniak'', ''Ronald Wayne'']]\<rparr>)
   \<and> accepted strptime_iso no_failure 2 apple
   \<and> \<not> accepted strptime_iso no_failure 3 stripe"
proof -
  have run: "insert_companies_to_db strptime_iso no_failure [apple, stripe, sony] empty_world =
     (False, \<lparr>company_details = Some \<lparr>next_id = 2, tuples = [apple_row]\<rparr>,
              calls = [Connect, Execute_create,
                       Execute_insert ''Apple Inc.'' (1976, 4, 1)
                         [''Steve Jobs'', ''Steve Wozniak'', ''Ronald Wayne'']]\<rparr>)"
    by (simp add: run_defs)
  have acc: "accepted strptime_iso no_failure 2 apple" "\<not> accepted strptime_iso no_failure 3 stripe"
    by (simp_all add: accepted_def run_defs)
  show ?thesis
    using insert_companies_to_db_spec [OF run] run acc by blast
qed

theorem get_stored_companies_spec_witness:
  "get_stored_companies no_failure
      \<lparr>company_details = Some \<lparr>next_id = 3, tuples = [apple_row, sony_row]\<rparr>, calls = []\<rparr>
     = ([sony_row, apple_row],
        \<lparr>company_details = Some \<lparr>next_id = 3, tuples = [apple_row, sony_row]\<rparr>,
         calls = [Connect, Fetch, Close]\<rparr>)
   \<and> sorted (map founded_in [sony_row, apple_row])
   \<and> mset [sony_row, apple_row] = mset [apple_row, sony_row]"
proof -
  have run: "get_stored_companies no_failure
      \<lparr>company_details = Some \<lparr>next_id = 3, tuples = [apple_row, sony_row]\<rparr>, calls = []\<rparr>
     = ([sony_row, apple_row],
        \<lparr>company_details = Some \<lparr>next_id = 3, tuples = [apple_row, sony_row]\<rparr>,
         calls = [Connect, Fetch, Close]\<rparr>)"
    by (simp add: run_defs rebuild_rows)
  show ?thesis
    using get_stored_companies_spec [OF run, of "\<lparr>next_id = 3, tuples = [apple_row, sony_row]\<rparr>"] run
    by (simp add: no_failure_def)
qed

lemma map_nth_upt: "map (\<lambda>i. f (cs ! i)) [0..<length cs] = map f cs"
proof -
  have "map (\<lambda>i. f (cs ! i)) [0..<length cs] = map f (map ((!) cs) [0..<length cs])"
    by (simp only: map_map comp_def)
  then show ?thesis by (simp only: map_nth)
qed

lemma map_sort_key: "map f (sort_key f xs) = sort (map f xs)"
  by (rule properties_for_sort [symmetric]) simp_all

text \<open>
  C1. Whatever records are inserted, in whatever order, and whatever fails on the way,
  the listing that follows is ordered by \<open>founded_in\<close>. When no call fails and every
  record is accepted, the insertion reports success, the listing holds the rows that
  were there before and one row per record, and its dates are the sorted dates of these
  rows: they do not depend on the order of insertion.
\<close>

theorem round_trip_ordered:
  assumes ins: "insert_companies_to_db strptime fails companies w = (ok, w1)"
    and lst: "get_stored_companies fails w1 = (rows, w2)"
  shows "sorted (map founded_in rows)
    \<and> ((\<forall>i < length companies + 6. \<not> fails (length (calls w) + i))
        \<and> (\<forall>c\<in>set companies. strptime (founding_date c) \<noteq> None \<and> length (company_name c) \<le> 255)
        \<and> create_table_if_not_exists (company_details w) = Some r
       \<longrightarrow> ok
         \<and> mset rows = mset (tuples (appended strptime companies r))
         \<and> map founded_in rows =
             sort (map founded_in (tuples r) @ map (\<lambda>c. the (strptime (founding_date c))) companies))"
proof (intro conjI impI)
  have "rows = fst (get_stored_companies fails w1)" using lst by simp
  then show "sorted (map founded_in rows)"
    by (subst (asm) get_stored_companies_cases) (simp split: option.splits)
next
  assume h: "(\<forall>i < length companies + 6. \<not> fails (length (calls w) + i))
        \<and> (\<forall>c\<in>set companies. strptime (founding_date c) \<noteq> None \<and> length (company_name c) \<le> 255)
        \<and> create_table_if_not_exists (company_details w) = Some r"
  let ?n = "length (calls w)"
  from h have f: "\<And>i. i < length companies + 6 \<Longrightarrow> \<not> fails (?n + i)" by blast
  have f0: "\<not> fails ?n" using f [of 0] by simp
  have f1: "\<not> fails (Suc ?n)" using f [of 1] by simp
  from h have r: "create_table_if_not_exists (company_details w) = Some r" by blast
  have acc: "accepted strptime fails (?n + 2 + i) (companies ! i)" if "i < length companies" for i
    using h f [of "2 + i"] that by (simp add: accepted_def add.assoc)
  let ?t = "insert_try strptime fails companies w"
  from insert_try_reachable [OF f0 f1 r, of companies strptime] obtain k where k:
    "k \<le> length companies"
    "company_details (snd ?t) = Some (appended strptime (take k companies) r)"
    "k < length companies \<longrightarrow> \<not> accepted strptime fails (?n + 2 + k) (companies ! k)"
    "fst ?t = Inr () \<longleftrightarrow> k = length companies \<and> \<not> fails (?n + 2 + k)"
    "k = length companies \<longrightarrow> length (calls (snd ?t)) = ?n + length companies + 3"
    by blast
  have kl: "k = length companies" using k(1,3) acc [of k] by (cases "k < length companies") auto
  have "\<not> fails (?n + 2 + k)" using f [of "2 + k"] kl by (simp add: add.assoc)
  with k(4) kl have res: "fst ?t = Inr ()" by simp
  obtain v where t: "?t = (Inr (), v)" using res by (cases ?t) auto
  from ins t have ok: "ok" and w1: "w1 = v"
    by (simp_all add: insert_companies_to_db_def)
  from k(2,5) kl t w1 have cd: "company_details w1 = Some (appended strptime companies r)"
    and len: "length (calls w1) = ?n + length companies + 3" by simp_all
  have e: "length (calls w1) = ?n + (length companies + 3)"
    "Suc (length (calls w1)) = ?n + (length companies + 4)"
    "Suc (Suc (length (calls w1))) = ?n + (length companies + 5)"
    using len by simp_all
  have g: "\<not> fails (length (calls w1))" "\<not> fails (Suc (length (calls w1)))"
    "\<not> fails (Suc (Suc (length (calls w1))))"
  proof -
    have "\<not> fails (?n + (length companies + 3))" by (rule f) simp
    then show "\<not> fails (length (calls w1))" unfolding e(1) .
    have "\<not> fails (?n + (length companies + 4))" by (rule f) simp
    then show "\<not> fails (Suc (length (calls w1)))" unfolding e(2) .
    have "\<not> fails (?n + (length companies + 5))" by (rule f) simp
    then show "\<not> fails (Suc (Suc (length (calls w1))))" unfolding e(3) .
  qed
  have "rows = fst (get_stored_companies fails w1)" using lst by simp
  then have rows: "rows = sort_key founded_in (tuples (appended strptime companies r))"
    by (subst (asm) get_stored_companies_cases) (simp add: g cd)
  show ok by (rule ok)
  show "mset rows = mset (tuples (appended strptime companies r))" by (simp add: rows)
  have "map founded_in (tuples (appended strptime companies r)) =
        map founded_in (tuples r) @ map (\<lambda>c. the (strptime (founding_date c))) companies"
    using map_nth_upt [of "\<lambda>c. the (strptime (founding_date c))" companies]
    by (simp add: appended_def row_of_def comp_def)
  then show "map founded_in rows =
      sort (map founded_in (tuples r) @ map (\<lambda>c. the (strptime (founding_date c))) companies)"
    by (simp add: rows map_sort_key)
qed

theorem round_trip_ordered_witness:
  "insert_companies_to_db strptime_iso no_failure [apple, sony] empty_world =
     (True, \<lparr>company_details = Some \<lparr>next_id = 3, tuples = [apple_row, sony_row]\<rparr>,
             calls = [Connect, Execute_create,
                      Execute_insert ''Apple Inc.'' (1976, 4, 1)
                        [''Steve Jobs'', ''Steve Wozniak'', ''Ronald Wayne''],
                      Execute_insert ''Sony Corporation'' (1946, 5, 7) [''Masaru Ibuka'', ''Akio Morita''],
                      Close]\<rparr>)
   \<and> fst (get_stored_companies no_failure
        (snd (insert_companies_to_db strptime_iso no_failure [apple, sony] empty_world)))
       = [sony_row, apple_row]
   \<and> map founded_in [sony_row, apple_row] = sort [(1976, 4, 1), (1946, 5, 7)]"
proof -
  let ?w1 = "\<lparr>company_details = Some \<lparr>next_id = 3, tuples = [apple_row, sony_row]\<rparr>,
             calls = [Connect, Execute_create,
                      Execute_insert ''Apple Inc.'' (1976, 4, 1)
                        [''Steve Jobs'', ''Steve Wozniak'', ''Ronald Wayne''],
                      Execute_insert ''Sony Corporation'' (1946, 5, 7) [''Masaru Ibuka'', ''Akio Morita''],
                      Close]\<rparr>"
  have ins: "insert_companies_to_db strptime_iso no_failure [apple, sony] empty_world = (True, ?w1)"
    by (simp add: run_defs)
  have lst: "get_stored_companies no_failure ?w1 =
      ([sony_row, apple_row], ?w1\<lparr>calls := calls ?w1 @ [Connect, Fetch, Close]\<rparr>)"
    by (simp add: run_defs rebuild_rows)
  have h: "(\<forall>i < length [apple, sony] + 6. \<not> no_failure (length (calls empty_world) + i))
        \<and> (\<forall>c\<in>set [apple, sony]. strptime_iso (founding_date c) \<noteq> None \<and> length (company_name c) \<le> 255)
        \<and> create_table_if_not_exists (company_details empty_world) = Some \<lparr>next_id = 1, tuples = []\<rparr>"
    by (simp add: run_defs)
  have dates: "map (\<lambda>c. the (strptime_iso (founding_date c))) [apple, sony] = [(1976, 4, 1), (1946, 5, 7)]"
    by (simp add: run_defs)
  from round_trip_ordered [OF ins lst, of "\<lparr>next_id = 1, tuples = []\<rparr>"] h
  have "map founded_in [sony_row, apple_row] =
      sort (map founded_in (tuples \<lparr>next_id = 1, tuples = []\<rparr>)
            @ map (\<lambda>c. the (strptime_iso (founding_date c))) [apple, sony])"
    by blast
  then have "map founded_in [sony_row, apple_row] = sort [(1976, 4, 1), (1946, 5, 7)]"
    unfolding dates by simp
  then show ?thesis using ins lst by simp
qed

lemma execute_create_details:
  "company_details (snd (execute_create fails w)) =
     (if fails (length (calls w)) then company_details w
      else create_table_if_not_exists (company_details w))"
  by (simp add: execute_create_def record_call_def)

lemma create_table_idem:
  "create_table_if_not_exists (create_table_if_not_exists t) = create_table_if_not_exists t"
  by (simp add: create_table_if_not_exists_def split: option.splits)

lemma ensure_many_reachable:
  "company_details (((\<lambda>v. snd (execute_create (\<lambda>i. False) v)) ^^ Suc n) w)
     = create_table_if_not_exists (company_details w)"
  by (induction n) (simp_all add: execute_create_details create_table_idem)

lemma ensure_many_existing:
  "company_details (((\<lambda>v. snd (execute_create fails v)) ^^ n) (w\<lparr>company_details := Some r\<rparr>)) = Some r"
  by (induction n) (simp_all add: execute_create_details create_table_if_not_exists_def)

text \<open>
  C7. The schema statement fails only when the call itself fails, never because the
  relation exists. Ensuring the schema twice is ensuring it once, any number of
  successive executions leaves the same relation as the first, a relation that exists
  keeps its rows and its sequence under any number of executions, whether they fail or
  not, and an insertion of no records into an existing relation succeeds and leaves it
  unchanged.
\<close>

theorem schema_ensure_idempotent:
  "fst (execute_create fails w) = (if fails (length (calls w)) then Inl DatabaseError else Inr ())
   \<and> create_table_if_not_exists (create_table_if_not_exists t) = create_table_if_not_exists t
   \<and> create_table_if_not_exists (Some r) = Some r
   \<and> company_details (((\<lambda>v. snd (execute_create (\<lambda>i. False) v)) ^^ Suc n) w)
       = create_table_if_not_exists (company_details w)
   \<and> company_details (((\<lambda>v. snd (execute_create fails v)) ^^ n) (w\<lparr>company_details := Some r\<rparr>))
       = Some r
   \<and> insert_companies_to_db strptime (\<lambda>i. False) [] (w\<lparr>company_details := Some r\<rparr>)
       = (True, w\<lparr>company_details := Some r, calls := calls w @ [Connect, Execute_create, Close]\<rparr>)"
proof (intro conjI)
  show "fst (execute_create fails w) = (if fails (length (calls w)) then Inl DatabaseError else Inr ())"
    by (simp add: execute_create_def)
  show "create_table_if_not_exists (create_table_if_not_exists t) = create_table_if_not_exists t"
    by (rule create_table_idem)
  show "create_table_if_not_exists (Some r) = Some r"
    by (simp add: create_table_if_not_exists_def)
  show "company_details (((\<lambda>v. snd (execute_create (\<lambda>i. False) v)) ^^ Suc n) w)
       = create_table_if_not_exists (company_details w)"
    by (rule ensure_many_reachable)
  show "company_details (((\<lambda>v. snd (execute_create fails v)) ^^ n) (w\<lparr>company_details := Some r\<rparr>))
       = Some r"
    by (rule ensure_many_existing)
  show "insert_companies_to_db strptime (\<lambda>i. False) [] (w\<lparr>company_details := Some r\<rparr>)
       = (True, w\<lparr>company_details := Some r, calls := calls w @ [Connect, Execute_create, Close]\<rparr>)"
    by (simp add: insert_companies_to_db_def insert_try_def connect_def execute_create_def close_def
        record_call_def create_table_if_not_exists_def)
qed

section \<open>Properties of the ingestion and of the question loop\<close>

lemma embed_documents_Inr:
  "embed_documents embeddings ts = Inr vs \<Longrightarrow>
     length vs = length ts \<and> (\<forall>i<length ts. embeddings (ts ! i) = Inr (vs ! i))"
proof (induction ts arbitrary: vs)
  case Nil
  then show ?case by simp
next
  case (Cons t ts)
  from Cons.prems obtain v vs' where v: "embeddings t = Inr v"
    and vs': "embed_documents embeddings ts = Inr vs'" and vs: "vs = v # vs'"
    by (auto split: sum.splits)
  from Cons.IH [OF vs'] have "length vs' = length ts"
    and "\<forall>i<length ts. embeddings (ts ! i) = Inr (vs' ! i)" by simp_all
  then show ?case using v vs by (auto simp: nth_Cons split: nat.splits)
qed

text \<open>
  C10. For a non-empty sequence of chunks whose texts are all embedded,
  \<open>add_chunks_to_vector_db\<close> returns normally and the collection holds what it held
  before, followed by one (chunk, embedding) pair per chunk from the construction call
  and the same pairs once more from the explicit call: every pair occurs twice as often
  as in a single addition.
\<close>

theorem add_chunks_stores_twice:
  assumes "chunks \<noteq> []"
    and "embed_documents embeddings (map page_content chunks) = Inr vectors"
  shows "add_chunks_to_vector_db embeddings chunks coll
           = (Inr (), coll @ zip chunks vectors @ zip chunks vectors)
    \<and> length vectors = length chunks
    \<and> (\<forall>i<length chunks. embeddings (page_content (chunks ! i)) = Inr (vectors ! i))
    \<and> (\<forall>x. count (mset (snd (add_chunks_to_vector_db embeddings chunks coll))) x
            = count (mset coll) x + 2 * count (mset (zip chunks vectors)) x)"
proof -
  have run: "add_chunks_to_vector_db embeddings chunks coll
           = (Inr (), coll @ zip chunks vectors @ zip chunks vectors)"
    using assms(2) by (simp add: add_chunks_to_vector_db_def from_documents_def add_documents_def)
  from embed_documents_Inr [OF assms(2)]
  have "length vectors = length chunks"
    and "\<forall>i<length chunks. embeddings (page_content (chunks ! i)) = Inr (vectors ! i)"
    by simp_all
  then show ?thesis using run by simp
qed

theorem add_chunks_stores_twice_witness:
  "[code_of_conduct, nomination] \<noteq> []
   \<and> embed_documents text_length (map page_content [code_of_conduct, nomination]) = Inr [8, 16]
   \<and> add_chunks_to_vector_db text_length [code_of_conduct, nomination] []
       = (Inr (), [(code_of_conduct, 8), (nomination, 16), (code_of_conduct, 8), (nomination, 16)])"
proof -
  have ne: "[code_of_conduct, nomination] \<noteq> []" by simp
  have em: "embed_documents text_length (map page_content [code_of_conduct, nomination]) = Inr [8, 16]"
    by (simp add: text_length_def code_of_conduct_def nomination_def)
  show ?thesis
    using add_chunks_stores_twice [OF ne em, of "[]"] em by simp
qed

lemma not_quit_blank: "strip line = [] \<Longrightarrow> \<not> quit_sentinel line"
  by (simp add: quit_sentinel_def lower_def)

lemma run_quit:
  "quit_sentinel line \<Longrightarrow>
     run_interactive_mode invoke (line # rest) = (Inr (), [Awaiting_Input, Exited], [Goodbye])"
  by (auto simp: quit_sentinel_def Let_def)

lemma run_blank:
  "strip line = [] \<Longrightarrow>
     run_interactive_mode invoke (line # rest) =
       (case run_interactive_mode invoke rest of (r, states, out) \<Rightarrow> (r, Awaiting_Input # states, out))"
  by (simp add: lower_def Let_def)

lemma run_step:
  "\<not> quit_sentinel line \<Longrightarrow>
     run_interactive_mode invoke (line # rest) =
       (case run_interactive_mode invoke rest of
          (r, states, out) \<Rightarrow> (r, rounds [line] @ states, answers invoke [line] @ out))"
  by (auto simp: quit_sentinel_def Let_def rounds_def answers_def split: prod.splits)

lemma rounds_Cons: "rounds (l # ls) = rounds [l] @ rounds ls"
  by (simp add: rounds_def)

lemma answers_Cons: "answers invoke (l # ls) = answers invoke [l] @ answers invoke ls"
  by (simp add: answers_def)

lemma run_until_quit:
  "\<forall>l\<in>set before. \<not> quit_sentinel l \<Longrightarrow> quit_sentinel line \<Longrightarrow>
     run_interactive_mode invoke (before @ line # rest) =
       (Inr (), rounds before @ [Awaiting_Input, Exited], answers invoke before @ [Goodbye])"
proof (induction before)
  case Nil
  from run_quit [OF Nil(2)] show ?case
    by (simp add: rounds_def answers_def del: run_interactive_mode.simps)
next
  case (Cons l ls)
  then have nq: "\<not> quit_sentinel l" by simp
  have "run_interactive_mode invoke ((l # ls) @ line # rest) =
       (case run_interactive_mode invoke (ls @ line # rest) of
          (r, states, out) \<Rightarrow> (r, rounds [l] @ states, answers invoke [l] @ out))"
    using run_step [OF nq, of invoke "ls @ line # rest"] by (simp only: append_Cons)
  with Cons show ?case
    by (simp add: rounds_Cons [of l ls] answers_Cons [of invoke l ls])
qed

lemma run_to_end_of_input:
  "\<forall>l\<in>set lines. \<not> quit_sentinel l \<Longrightarrow>
     run_interactive_mode invoke lines =
       (Inl EOFError, rounds lines @ [Awaiting_Input], answers invoke lines)"
proof (induction lines)
  case Nil
  then show ?case by (simp add: rounds_def answers_def)
next
  case (Cons l ls)
  then have "\<not> quit_sentinel l" by simp
  then have "run_interactive_mode invoke (l # ls) =
       (case run_interactive_mode invoke ls of
          (r, states, out) \<Rightarrow> (r, rounds [l] @ states, answers invoke [l] @ out))"
    by (rule run_step)
  with Cons show ?case
    by (simp add: rounds_Cons [of l ls] answers_Cons [of invoke l ls])
qed

lemma Exited_notin_rounds: "Exited \<notin> set (rounds lines)"
  by (auto simp: rounds_def split: if_splits)

lemma of_char_lower_char:
  "(of_char (lower_char c) :: nat) =
     (if (65 \<le> (of_char c :: nat) \<and> (of_char c :: nat) \<le> 90)
         \<or> (192 \<le> (of_char c :: nat) \<and> (of_char c :: nat) \<le> 222 \<and> (of_char c :: nat) \<noteq> 215)
      then of_char c + 32 else of_char c)"
  by (simp add: lower_char_def Let_def)

lemma lower_char_letter:
  assumes "(of_char d :: nat) = m + 32" and "65 \<le> m" and "m \<le> 90"
  shows "lower_char c = d \<longleftrightarrow> c = d \<or> c = char_of m"
proof -
  have "lower_char c = d \<longleftrightarrow> (of_char (lower_char c) :: nat) = of_char d"
    by (simp only: of_char_eq_iff)
  also have "\<dots> \<longleftrightarrow> (of_char c :: nat) = of_char d \<or> (of_char c :: nat) = m"
    using assms by (auto simp: of_char_lower_char)
  also have "(of_char c :: nat) = of_char d \<longleftrightarrow> c = d"
    by (simp only: of_char_eq_iff)
  also have "(of_char c :: nat) = m \<longleftrightarrow> c = char_of m"
    using assms(2,3) by (auto simp: char_of_eq_iff take_bit_eq_mod dest: sym)
  finally show ?thesis .
qed

lemma upper_letters:
  "char_of (81 :: nat) = CHR ''Q''" "char_of (85 :: nat) = CHR ''U''"
  "char_of (73 :: nat) = CHR ''I''" "char_of (84 :: nat) = CHR ''T''"
  by code_simp+

lemma lower_char_q: "lower_char c = CHR ''q'' \<longleftrightarrow> c = CHR ''q'' \<or> c = CHR ''Q''"
  using lower_char_letter [of "CHR ''q''" 81 c] by (simp add: upper_letters)

lemma lower_char_u: "lower_char c = CHR ''u'' \<longleftrightarrow> c = CHR ''u'' \<or> c = CHR ''U''"
  using lower_char_letter [of "CHR ''u''" 85 c] by (simp add: upper_letters)

lemma lower_char_i: "lower_char c = CHR ''i'' \<longleftrightarrow> c = CHR ''i'' \<or> c = CHR ''I''"
  using lower_char_letter [of "CHR ''i''" 73 c] by (simp add: upper_letters)

lemma lower_char_t: "lower_char c = CHR ''t'' \<longleftrightarrow> c = CHR ''t'' \<or> c = CHR ''T''"
  using lower_char_letter [of "CHR ''t''" 84 c] by (simp add: upper_letters)

lemma lower_one: "lower s = [x] \<longleftrightarrow> (\<exists>a. s = [a] \<and> lower_char a = x)"
  unfolding lower_def by (cases s) auto

lemma lower_four:
  "lower s = [x, y, z, u] \<longleftrightarrow>
     (\<exists>a b c d. s = [a, b, c, d] \<and> lower_char a = x \<and> lower_char b = y
        \<and> lower_char c = z \<and> lower_char d = u)"
  unfolding lower_def by (auto simp: map_eq_Cons_conv)

lemma quit_sentinel_iff:
  "quit_sentinel line \<longleftrightarrow>
     (\<exists>a b c d. strip line = [a, b, c, d]
        \<and> (a = CHR ''q'' \<or> a = CHR ''Q'') \<and> (b = CHR ''u'' \<or> b = CHR ''U'')
        \<and> (c = CHR ''i'' \<or> c = CHR ''I'') \<and> (d = CHR ''t'' \<or> d = CHR ''T''))
     \<or> strip line = ''q'' \<or> strip line = ''Q''"
proof -
  have one: "lower (strip line) = ''q'' \<longleftrightarrow> strip line = ''q'' \<or> strip line = ''Q''"
    unfolding lower_one lower_char_q by blast
  have four: "lower (strip line) = ''quit'' \<longleftrightarrow>
     (\<exists>a b c d. strip line = [a, b, c, d]
        \<and> (a = CHR ''q'' \<or> a = CHR ''Q'') \<and> (b = CHR ''u'' \<or> b = CHR ''U'')
        \<and> (c = CHR ''i'' \<or> c = CHR ''I'') \<and> (d = CHR ''t'' \<or> d = CHR ''T''))"
    unfolding lower_four lower_char_q lower_char_u lower_char_i lower_char_t ..
  show ?thesis unfolding quit_sentinel_def one four by blast
qed

text \<open>
  C9, as amended. The quit sentinels are the sixteen spellings of \<open>quit\<close> in upper and
  lower case and the two of \<open>q\<close>, surrounded by any whitespace. A line that is a quit
  sentinel ends the loop normally in the state \<open>Exited\<close>, the lines after it are not
  read, and each line before it is a wait for input followed, unless the line is blank,
  by one answer. At the end of an input without a quit sentinel the function is left by
  \<open>EOFError\<close> while waiting for input, \<open>Exited\<close> is not reached. A blank line is not a
  quit sentinel, is not answered, prints nothing and leaves the loop waiting for input.
\<close>

theorem question_loop_spec:
  "(quit_sentinel line \<longleftrightarrow>
      (\<exists>a b c d. strip line = [a, b, c, d]
         \<and> (a = CHR ''q'' \<or> a = CHR ''Q'') \<and> (b = CHR ''u'' \<or> b = CHR ''U'')
         \<and> (c = CHR ''i'' \<or> c = CHR ''I'') \<and> (d = CHR ''t'' \<or> d = CHR ''T''))
      \<or> strip line = ''q'' \<or> strip line = ''Q'')
   \<and> ((\<forall>l\<in>set before. \<not> quit_sentinel l) \<and> quit_sentinel line \<longrightarrow>
      run_interactive_mode invoke (before @ line # rest) =
        (Inr (), rounds before @ [Awaiting_Input, Exited], answers invoke before @ [Goodbye]))
   \<and> ((\<forall>l\<in>set lines. \<not> quit_sentinel l) \<longrightarrow>
      run_interactive_mode invoke lines =
        (Inl EOFError, rounds lines @ [Awaiting_Input], answers invoke lines))
   \<and> (strip line = [] \<longrightarrow> \<not> quit_sentinel line \<and> rounds [line] = [Awaiting_Input]
        \<and> answers invoke [line] = []
        \<and> run_interactive_mode invoke (line # rest) =
            (case run_interactive_mode invoke rest of
               (r, states, out) \<Rightarrow> (r, Awaiting_Input # states, out)))
   \<and> Exited \<notin> set (rounds lines)"
proof (intro conjI)
  show "quit_sentinel line \<longleftrightarrow>
      (\<exists>a b c d. strip line = [a, b, c, d]
         \<and> (a = CHR ''q'' \<or> a = CHR ''Q'') \<and> (b = CHR ''u'' \<or> b = CHR ''U'')
         \<and> (c = CHR ''i'' \<or> c = CHR ''I'') \<and> (d = CHR ''t'' \<or> d = CHR ''T''))
      \<or> strip line = ''q'' \<or> strip line = ''Q''"
    by (rule quit_sentinel_iff)
  show "(\<forall>l\<in>set before. \<not> quit_sentinel l) \<and> quit_sentinel line \<longrightarrow>
      run_interactive_mode invoke (before @ line # rest) =
        (Inr (), rounds before @ [Awaiting_Input, Exited], answers invoke before @ [Goodbye])"
    using run_until_quit [of before line invoke rest] by blast
  show "(\<forall>l\<in>set lines. \<not> quit_sentinel l) \<longrightarrow>
      run_interactive_mode invoke lines =
        (Inl EOFError, rounds lines @ [Awaiting_Input], answers invoke lines)"
    using run_to_end_of_input [of lines invoke] by blast
  show "strip line = [] \<longrightarrow> \<not> quit_sentinel line \<and> rounds [line] = [Awaiting_Input]
        \<and> answers invoke [line] = []
        \<and> run_interactive_mode invoke (line # rest) =
            (case run_interactive_mode invoke rest of
               (r, states, out) \<Rightarrow> (r, Awaiting_Input # states, out))"
    using run_blank [of line invoke rest] not_quit_blank [of line]
    by (simp add: rounds_def answers_def del: run_interactive_mode.simps)
  show "Exited \<notin> set (rounds lines)"
    by (rule Exited_notin_rounds)
qed

theorem question_loop_spec_witness:
  "run_interactive_mode echo [''  '', ''What is harassment?'', '' QuIt '', ''never read'']
     = (Inr (), [Awaiting_Input, Awaiting_Input, Answering ''What is harassment?'', Awaiting_Input, Exited],
        [Answer ''What is harassment?'', Goodbye])
   \<and> quit_sentinel '' QuIt '' \<and> quit_sentinel ''Q'' \<and> quit_sentinel ''quit'' \<and> quit_sentinel ''QUIT''
   \<and> \<not> quit_sentinel ''  '' \<and> \<not> quit_sentinel ''What is harassment?''
   \<and> run_interactive_mode echo [''  '', ''What is harassment?'']
     = (Inl EOFError, [Awaiting_Input, Awaiting_Input, Answering ''What is harassment?'', Awaiting_Input],
        [Answer ''What is harassment?''])"
proof -
  have q: "quit_sentinel '' QuIt ''" "quit_sentinel ''Q''" "quit_sentinel ''quit''" "quit_sentinel ''QUIT''"
    "\<not> quit_sentinel ''  ''" "\<not> quit_sentinel ''What is harassment?''"
    by code_simp+
  have h: "\<forall>l\<in>set [''  '', ''What is harassment?'']. \<not> quit_sentinel l"
    using q by simp
  have r: "rounds [''  '', ''What is harassment?''] = [Awaiting_Input, Awaiting_Input, Answering ''What is harassment?'']"
    "answers echo [''  '', ''What is harassment?''] = [Answer ''What is harassment?'']"
    by (simp_all add: rounds_def answers_def echo_def strip_def isspace_def)
  note spec = question_loop_spec [where before = "[''  '', ''What is harassment?'']"
      and line = "'' QuIt ''" and invoke = echo and rest = "[''never read'']"
      and lines = "[''  '', ''What is harassment?'']"]
  from spec h q have a: "run_interactive_mode echo ([''  '', ''What is harassment?''] @ '' QuIt '' # [''never read''])
      = (Inr (), rounds [''  '', ''What is harassment?''] @ [Awaiting_Input, Exited],
         answers echo [''  '', ''What is harassment?''] @ [Goodbye])"
    by blast
  from spec h have b: "run_interactive_mode echo [''  '', ''What is harassment?'']
      = (Inl EOFError, rounds [''  '', ''What is harassment?''] @ [Awaiting_Input],
         answers echo [''  '', ''What is harassment?''])"
    by blast
  show ?thesis
    using a b q r by (simp del: run_interactive_mode.simps)
qed

text \<open>
  C9 as stated fails: at the end of the input the loop does not reach \<open>Exited\<close>, the
  exception of \<open>input()\<close> leaves the function.
\<close>

theorem end_of_input_counterexample:
  "fst (run_interactive_mode echo [''What is harassment?'']) = Inl EOFError
   \<and> Exited \<notin> set (fst (snd (run_interactive_mode echo [''What is harassment?''])))
   \<and> run_interactive_mode echo [] = (Inl EOFError, [Awaiting_Input], [])"
  by (simp add: lower_def lower_char_def strip_def isspace_def echo_def Let_def)

end
